theory Spec2Isabelle
  imports Complex_Main
begin

section \<open>The relay socket of google\_relay.js\<close>

text \<open>
  A shallow embedding of \<^verbatim>\<open>hterm.NaSSH.GoogleRelay.Socket\<close>
  (src/hterm/js/google\_relay.js). The JavaScript object and the parts of the browser it
  talks to are one record; every method takes the record and returns the new one. A
  method that can throw returns the thrown value beside the state it leaves behind,
  because what was assigned before the \<^verbatim>\<open>throw\<close> stays assigned.

  Names are the source's. Isabelle does not accept a name that ends in an underscore,
  so a private member \<^verbatim>\<open>name_\<close> is written \<open>name_'\<close>.

  Strings are base64 text, hence ASCII: one \<open>char\<close> per UTF-16 code unit, and
  \<open>length\<close> is the source's \<^verbatim>\<open>.length\<close>. Numbers are \<open>int\<close>: the
  counters and the backoff only ever hold integers, which a double represents exactly
  below \<open>2 ^ 53\<close>. The calls of \<^verbatim>\<open>console.log\<close> are left out.
\<close>

subsection \<open>Data\<close>

text \<open>The two XHR objects an event can come from (\<^verbatim>\<open>e.target\<close>).\<close>

datatype target = ReadRequest | WriteRequest

text \<open>
  The function handed to \<^verbatim>\<open>setTimeout\<close>: \<^verbatim>\<open>this.resumeRead_.bind(this)\<close>
  or \<^verbatim>\<open>this.serviceWriteQueue_.bind(this)\<close>.
\<close>

datatype retry = ResumeRead | ServiceWriteQueue

text \<open>
  A request that was opened and sent, by the parts its URL is put together from:
  the relay server, then host and port, or the session id, the counter and the data.
\<close>

datatype request =
    ProxyGET string string int
  | ReadGET string "string option" int
  | WriteGET string "string option" int string

datatype error =
    WriteCallbackNotImplemented
  | InvalidWebSafeLength nat
  | TypeError

record socket =
  relayServer :: string
  host_' :: string
  port_' :: int
  sessionID_' :: "string option"
  backoffMS_' :: int
  writeQueue_' :: "string list"
  writeCount_' :: int
  readCount_' :: int
  closed :: bool
  delivered :: "string list"
  onComplete :: "bool list"
  overlays :: "(string \<times> int) list"
  timers :: "(retry \<times> int) list"
  sent :: "request list"
  sessionInFlight :: bool
  readInFlight :: bool
  writeInFlight :: bool

text \<open>
  \<open>relayServer\<close> is \<^verbatim>\<open>this.relay_.relayServer\<close>; \<open>sessionID_'\<close> is \<open>None\<close> while the
  member is undefined. The fields from \<open>closed\<close> on are the world around the object:
  \<open>closed\<close> the life cycle kept by the stream base class, \<open>delivered\<close> the arguments of
  the calls of \<^verbatim>\<open>onDataAvailable\<close>, \<open>onComplete\<close> those of the callback of
  \<^verbatim>\<open>asyncOpen_\<close>, \<open>overlays\<close> the calls of \<^verbatim>\<open>showOverlay\<close> (message key and
  duration), \<open>timers\<close> the pending \<^verbatim>\<open>setTimeout\<close> calls (function and delay),
  \<open>sent\<close> the requests sent so far, and the three flags say which XHR has a request
  on its way.
\<close>

text \<open>The constructor (lines 151 to 174).\<close>

definition Socket :: socket where
  "Socket = \<lparr> relayServer = [], host_' = [], port_' = 0, sessionID_' = None,
      backoffMS_' = 0, writeQueue_' = [], writeCount_' = 0, readCount_' = 0,
      closed = False, delivered = [], onComplete = [], overlays = [], timers = [],
      sent = [], sessionInFlight = False, readInFlight = False, writeInFlight = False \<rparr>"

definition maxMessageLength :: nat where
  "maxMessageLength = 1024"

subsection \<open>Members inherited from the stream base class\<close>

text \<open>
  Modelled from the spec: \<^verbatim>\<open>close()\<close> is inherited from \<^verbatim>\<open>hterm.NaSSH.Stream\<close>,
  which is not part of the file. The spec has it move the stream to Closed from any
  state. A timer can only be cancelled through the identifier that \<^verbatim>\<open>setTimeout\<close>
  returns, and \<^verbatim>\<open>onRequestError_\<close> (line 386) drops that identifier, so no member of
  the object holds anything \<^verbatim>\<open>close\<close> could cancel a timer with: \<open>timers\<close> is left
  as it is.
\<close>

definition close :: "socket \<Rightarrow> socket" where
  "close w = w\<lparr>closed := True\<rparr>"

text \<open>
  Modelled from the spec: \<^verbatim>\<open>onDataAvailable(data)\<close>, the callback of the stream base
  class that hands inbound data to the consumer, once per call and in call order.
\<close>

definition onDataAvailable :: "string \<Rightarrow> socket \<Rightarrow> socket" where
  "onDataAvailable data w = w\<lparr>delivered := delivered w @ [data]\<rparr>"

text \<open>
  Modelled from the spec: the member \<^verbatim>\<open>onRequestError\<close>, without the underscore, that
  lines 319 and 347 call. The file defines \<^verbatim>\<open>onRequestError_\<close> only, and the spec
  gives the stream base class open, write, close and the data callback and nothing
  else, so the member is undefined and calling it throws a TypeError before anything
  is changed.
\<close>

definition onRequestError :: "target \<Rightarrow> socket \<Rightarrow> error option \<times> socket" where
  "onRequestError e w = (Some TypeError, w)"

subsection \<open>The codec\<close>

text \<open>
  \<^verbatim>\<open>s.replace(/[...]/g, f)\<close> with a character class: every character of the class is
  replaced by what \<open>f\<close> returns for it, the others stay.
\<close>

definition replace_class :: "(char \<Rightarrow> bool) \<Rightarrow> (char \<Rightarrow> string) \<Rightarrow> string \<Rightarrow> string" where
  "replace_class cls f s = concat (map (\<lambda>ch. if cls ch then f ch else [ch]) s)"

definition webSafeToBase64_' :: "string \<Rightarrow> socket \<Rightarrow> (error + string) \<times> socket" where
  "webSafeToBase64_' s0 w =
     (let s = replace_class (\<lambda>ch. ch = CHR ''-'' \<or> ch = CHR ''_'')
                (\<lambda>ch. if ch = CHR ''-'' then ''+'' else ''/'') s0
      in if length s mod 4 = 2 then (Inr (s @ ''==''), w)
         else if length s mod 4 = 3 then (Inr (s @ ''=''), w)
         else if length s mod 4 \<noteq> 0 then (Inl (InvalidWebSafeLength (length s)), close w)
         else (Inr s, w))"

definition base64ToWebSafe_' :: "string \<Rightarrow> string" where
  "base64ToWebSafe_' s =
     replace_class (\<lambda>ch. ch = CHR ''+'' \<or> ch = CHR ''/'' \<or> ch = CHR ''='')
       (\<lambda>ch. if ch = CHR ''+'' then ''-'' else if ch = CHR ''/'' then ''_'' else []) s"

subsection \<open>Reading and writing\<close>

definition resumeRead_' :: "socket \<Rightarrow> socket" where
  "resumeRead_' w =
     w\<lparr>sent := sent w @ [ReadGET (relayServer w) (sessionID_' w) (readCount_' w)],
       readInFlight := True\<rparr>"

definition serviceWriteQueue_' :: "socket \<Rightarrow> socket" where
  "serviceWriteQueue_' w =
     (if length (writeQueue_' w) = 0 then w
      else let msg = writeQueue_' w ! 0
           in w\<lparr>sent := sent w @ [WriteGET (relayServer w) (sessionID_' w) (writeCount_' w) msg],
                writeInFlight := True\<rparr>)"

text \<open>
  The loop of \<^verbatim>\<open>asyncWrite\<close> (lines 253 to 256): \<open>q\<close> is the write queue, \<open>d\<close> the
  data not yet queued. It returns both as they are when the loop ends.
\<close>

function push_chunks :: "string list \<Rightarrow> string \<Rightarrow> string list \<times> string" where
  "push_chunks q d =
     (if length d > maxMessageLength
      then push_chunks (q @ [take maxMessageLength d]) (drop maxMessageLength d)
      else (q, d))"
  by pat_completeness auto
termination
  by (relation "measure (\<lambda>(q, d). length d)") (auto simp: maxMessageLength_def)

declare push_chunks.simps [simp del]

text \<open>\<open>onWrite\<close> says whether the caller passed a write callback.\<close>

definition asyncWrite :: "string \<Rightarrow> bool \<Rightarrow> socket \<Rightarrow> error option \<times> socket" where
  "asyncWrite data onWrite w =
     (if onWrite then (Some WriteCallbackNotImplemented, w)
      else if length data = 0 then (None, w)
      else let needService = (length (writeQueue_' w) = 0);
               (q, rest) = push_chunks (writeQueue_' w) (base64ToWebSafe_' data);
               w1 = w\<lparr>writeQueue_' := q @ [rest]\<rparr>
           in (None, if needService then serviceWriteQueue_' w1 else w1))"

subsection \<open>Backoff\<close>

definition clearBackoff_' :: "socket \<Rightarrow> socket" where
  "clearBackoff_' w = w\<lparr>backoffMS_' := 0\<rparr>"

text \<open>
  \<^verbatim>\<open>hterm.msg\<close> is not part of the file; the overlay is recorded with the key of the
  message, \<^verbatim>\<open>RELAY_RETRY\<close>.
\<close>

definition onRequestError_' :: "target \<Rightarrow> socket \<Rightarrow> socket" where
  "onRequestError_' e w0 =
     (let w1 = (if backoffMS_' w0 = 0 then w0\<lparr>backoffMS_' := 1\<rparr> else w0);
          retryFunction = (if e = ReadRequest then ResumeRead else ServiceWriteQueue);
          w2 = (if backoffMS_' w1 \<ge> 1000
                then w1\<lparr>overlays := overlays w1 @ [(''RELAY_RETRY'', backoffMS_' w1 + 500)]\<rparr>
                else w1);
          w3 = w2\<lparr>timers := timers w2 @ [(retryFunction, backoffMS_' w2)]\<rparr>
      in w3\<lparr>backoffMS_' := backoffMS_' w3 * 2 + 93\<rparr>)"

subsection \<open>Completion handlers\<close>

text \<open>
  The handlers read \<^verbatim>\<open>readyState\<close>, \<^verbatim>\<open>status\<close> and \<^verbatim>\<open>responseText\<close> from the XHR;
  here they are arguments. \<^verbatim>\<open>Math.floor(n * 3 / 4)\<close> is the floor of a real quotient.
\<close>

definition onReadReady_' :: "nat \<Rightarrow> nat \<Rightarrow> string \<Rightarrow> socket \<Rightarrow> error option \<times> socket" where
  "onReadReady_' readyState status responseText w =
     (if readyState \<noteq> 4 then (None, w)
      else if status = 410 then (None, close w)
      else if status \<noteq> 200 then onRequestError ReadRequest w
      else let w1 = w\<lparr>readCount_' := readCount_' w + \<lfloor>real (length responseText) * 3 / 4\<rfloor>\<rparr>
           in case webSafeToBase64_' responseText w1 of
                (Inl err, w2) \<Rightarrow> (Some err, w2)
              | (Inr data, w2) \<Rightarrow>
                  (None, resumeRead_' (clearBackoff_' (onDataAvailable data w2))))"

text \<open>
  Line 349 reads \<^verbatim>\<open>this.writeQueue_[0].length\<close>: on an empty queue that is a property
  of \<^verbatim>\<open>undefined\<close>, a TypeError.
\<close>

definition onWriteDone_' :: "nat \<Rightarrow> nat \<Rightarrow> socket \<Rightarrow> error option \<times> socket" where
  "onWriteDone_' readyState status w =
     (if readyState \<noteq> 4 then (None, w)
      else if status = 410 then (None, close w)
      else if status \<noteq> 200 then onRequestError WriteRequest w
      else (case writeQueue_' w of
              [] \<Rightarrow> (Some TypeError, w)
            | head # rest \<Rightarrow>
                let lastCount = length head;
                    w1 = w\<lparr>writeQueue_' := rest\<rparr>;
                    w2 = w1\<lparr>writeCount_' := writeCount_' w1 + \<lfloor>real lastCount * 3 / 4\<rfloor>\<rparr>
                in (None, serviceWriteQueue_' (clearBackoff_' w2))))"

subsection \<open>Opening\<close>

text \<open>
  \<^verbatim>\<open>asyncOpen_\<close> (lines 194 to 229) stores its arguments and sends the session request;
  \<open>onError\<close> and \<open>onReady\<close> are its two inner functions.
\<close>

definition asyncOpen_' :: "string \<Rightarrow> string \<Rightarrow> int \<Rightarrow> socket \<Rightarrow> socket" where
  "asyncOpen_' relay host port w =
     (let w1 = w\<lparr>relayServer := relay, host_' := host, port_' := port\<rparr>
      in w1\<lparr>sent := sent w1 @ [ProxyGET (relayServer w1) (host_' w1) (port_' w1)],
            sessionInFlight := True\<rparr>)"

definition onError :: "socket \<Rightarrow> socket" where
  "onError w = w\<lparr>onComplete := onComplete w @ [False]\<rparr>"

definition onReady :: "nat \<Rightarrow> nat \<Rightarrow> string \<Rightarrow> socket \<Rightarrow> socket" where
  "onReady readyState status responseText w =
     (if readyState \<noteq> 4 then w
      else if status \<noteq> 200 then onError w
      else let w1 = w\<lparr>sessionID_' := Some responseText\<rparr>;
               w2 = resumeRead_' w1
           in w2\<lparr>onComplete := onComplete w2 @ [True]\<rparr>)"

subsection \<open>The event loop\<close>

text \<open>
  What can happen to a socket, one event after the other on a single thread:
  a request ends with an HTTP status (only \<^verbatim>\<open>loadend\<close> fires, with \<^verbatim>\<open>readyState\<close> 4),
  a request fails by error, abort or timeout (the handler of that event runs, then
  \<^verbatim>\<open>loadend\<close> with status 0), the \<open>k\<close>-th pending timer fires, or the owner of the
  stream calls \<^verbatim>\<open>asyncWrite\<close> or \<^verbatim>\<open>close\<close>. A request can only end while it is on its
  way and a timer can only fire while it is pending; an event that cannot happen
  leaves the state as it is. An exception that leaves a handler ends the handler and
  nothing more.
\<close>

datatype event =
    SessionLoadEnd nat string
  | SessionFail
  | ReadLoadEnd nat string
  | ReadFail
  | WriteLoadEnd nat
  | WriteFail
  | Timeout nat
  | CallAsyncWrite string
  | CallClose

definition fire :: "retry \<Rightarrow> socket \<Rightarrow> socket" where
  "fire f w = (case f of ResumeRead \<Rightarrow> resumeRead_' w | ServiceWriteQueue \<Rightarrow> serviceWriteQueue_' w)"

fun step :: "event \<Rightarrow> socket \<Rightarrow> socket" where
  "step (SessionLoadEnd status text) w =
     (if sessionInFlight w then onReady 4 status text (w\<lparr>sessionInFlight := False\<rparr>) else w)"
| "step SessionFail w =
     (if sessionInFlight w then onReady 4 0 [] (onError (w\<lparr>sessionInFlight := False\<rparr>)) else w)"
| "step (ReadLoadEnd status text) w =
     (if readInFlight w then snd (onReadReady_' 4 status text (w\<lparr>readInFlight := False\<rparr>)) else w)"
| "step ReadFail w =
     (if readInFlight w
      then snd (onReadReady_' 4 0 [] (onRequestError_' ReadRequest (w\<lparr>readInFlight := False\<rparr>)))
      else w)"
| "step (WriteLoadEnd status) w =
     (if writeInFlight w then snd (onWriteDone_' 4 status (w\<lparr>writeInFlight := False\<rparr>)) else w)"
| "step WriteFail w =
     (if writeInFlight w
      then snd (onWriteDone_' 4 0 (onRequestError_' WriteRequest (w\<lparr>writeInFlight := False\<rparr>)))
      else w)"
| "step (Timeout k) w =
     (if k < length (timers w)
      then fire (fst (timers w ! k)) (w\<lparr>timers := take k (timers w) @ drop (Suc k) (timers w)\<rparr>)
      else w)"
| "step (CallAsyncWrite data) w = snd (asyncWrite data False w)"
| "step CallClose w = close w"

definition run :: "event list \<Rightarrow> socket \<Rightarrow> socket" where
  "run evs w = fold step evs w"

text \<open>A socket that was constructed and opened, with its first read on the way.\<close>

definition opened :: socket where
  "opened = run [SessionLoadEnd 200 ''sid''] (asyncOpen_' ''http://relay:8023/'' ''host'' 22 Socket)"

subsection \<open>Notions the properties are stated with\<close>

text \<open>
  A standard base64 string as the codec receives it: characters of the base64
  alphabet, then no, one or two \<^verbatim>\<open>=\<close> of padding, and a length divisible by 4.
\<close>

definition base64_char :: "char \<Rightarrow> bool" where
  "base64_char c =
     (c \<in> set ''ABCDEFGHIJKLMNOPQRSTUVWXYZabcdefghijklmnopqrstuvwxyz0123456789+/'')"

definition valid_base64 :: "string \<Rightarrow> bool" where
  "valid_base64 x =
     (let body = takeWhile (\<lambda>c. c \<noteq> CHR ''='') x;
          pad = dropWhile (\<lambda>c. c \<noteq> CHR ''='') x
      in length x mod 4 = 0 \<and> list_all base64_char body \<and>
         (pad = [] \<or> pad = ''='' \<or> pad = ''==''))"

text \<open>
  The delay with which a failure of the request \<open>e\<close>, handled now, schedules its
  retry: the delay of the timer that \<open>onRequestError_'\<close> appends.
\<close>

definition retryDelay :: "target \<Rightarrow> socket \<Rightarrow> int" where
  "retryDelay e w = snd (last (timers (onRequestError_' e w)))"

text \<open>The read requests and the write requests among the requests sent.\<close>

definition isRead :: "request \<Rightarrow> bool" where
  "isRead r = (case r of ReadGET _ _ _ \<Rightarrow> True | _ \<Rightarrow> False)"

definition readRequests :: "socket \<Rightarrow> request list" where
  "readRequests w = filter isRead (sent w)"

definition isWrite :: "request \<Rightarrow> bool" where
  "isWrite r = (case r of WriteGET _ _ _ _ \<Rightarrow> True | _ \<Rightarrow> False)"

definition writeRequests :: "socket \<Rightarrow> request list" where
  "writeRequests w = filter isWrite (sent w)"

definition readRetryPending :: "socket \<Rightarrow> bool" where
  "readRetryPending w = list_ex (\<lambda>t. fst t = ResumeRead) (timers w)"

definition writeRetryPending :: "socket \<Rightarrow> bool" where
  "writeRetryPending w = list_ex (\<lambda>t. fst t = ServiceWriteQueue) (timers w)"

text \<open>
  The read loop is running: a read request is on its way and nothing else could
  start one. It has stopped: no read request is on its way and nothing could start one.
\<close>

definition reading :: "socket \<Rightarrow> bool" where
  "reading w = (readInFlight w \<and> \<not> sessionInFlight w \<and> \<not> readRetryPending w)"

definition readStopped :: "socket \<Rightarrow> bool" where
  "readStopped w = (\<not> readInFlight w \<and> \<not> sessionInFlight w \<and> \<not> readRetryPending w)"

text \<open>
  What can still start a read request: the session request, a read request on its
  way, and every pending retry of a read.
\<close>

definition readTokens :: "socket \<Rightarrow> nat" where
  "readTokens w =
     (if sessionInFlight w then 1 else 0) + (if readInFlight w then 1 else 0) +
     length (filter (\<lambda>t. fst t = ResumeRead) (timers w))"

text \<open>
  The write path has stalled: chunks are queued, but no write request is on its way
  and no retry of one is pending.
\<close>

definition writeStalled :: "socket \<Rightarrow> bool" where
  "writeStalled w = (writeQueue_' w \<noteq> [] \<and> \<not> writeInFlight w \<and> \<not> writeRetryPending w)"

text \<open>
  An event under which the read loop goes on: every read that ends does so with
  status 200 and a body that decodes, and no read fails.
\<close>

fun goodRead :: "event \<Rightarrow> bool" where
  "goodRead (ReadLoadEnd status text) = (status = 200 \<and> length text mod 4 \<noteq> 1)"
| "goodRead ReadFail = False"
| "goodRead _ = True"

fun isReadEnd :: "event \<Rightarrow> bool" where
  "isReadEnd (ReadLoadEnd status text) = True"
| "isReadEnd _ = False"

section \<open>The codec\<close>

lemma replace_class_append:
  "replace_class cls f (xs @ ys) = replace_class cls f xs @ replace_class cls f ys"
  by (simp add: replace_class_def)

lemma replace_class_websafe_map:
  "replace_class (\<lambda>ch. ch = CHR ''-'' \<or> ch = CHR ''_'')
     (\<lambda>ch. if ch = CHR ''-'' then ''+'' else ''/'') s =
   map (\<lambda>ch. if ch = CHR ''-'' then CHR ''+'' else if ch = CHR ''_'' then CHR ''/'' else ch) s"
  by (induction s) (auto simp: replace_class_def)

lemma webSafeToBase64_map:
  "webSafeToBase64_' s w =
     (let t = map (\<lambda>ch. if ch = CHR ''-'' then CHR ''+''
                         else if ch = CHR ''_'' then CHR ''/'' else ch) s
      in if length s mod 4 = 2 then (Inr (t @ ''==''), w)
         else if length s mod 4 = 3 then (Inr (t @ ''=''), w)
         else if length s mod 4 = 0 then (Inr t, w)
         else (Inl (InvalidWebSafeLength (length s)), w\<lparr>closed := True\<rparr>))"
  by (simp add: webSafeToBase64_'_def replace_class_websafe_map Let_def close_def)

lemma base64_char_plain:
  "base64_char c \<Longrightarrow> c \<noteq> CHR ''-'' \<and> c \<noteq> CHR ''_'' \<and> c \<noteq> CHR ''=''"
  by (auto simp: base64_char_def)

lemma websafe_body_roundtrip:
  "list_all base64_char body \<Longrightarrow>
     map (\<lambda>ch. if ch = CHR ''-'' then CHR ''+'' else if ch = CHR ''_'' then CHR ''/'' else ch)
       (base64ToWebSafe_' body) = body \<and>
     length (base64ToWebSafe_' body) = length body"
proof (induction body)
  case Nil
  show ?case by (simp add: base64ToWebSafe_'_def replace_class_def)
next
  case (Cons c cs)
  let ?h = "\<lambda>ch. if ch = CHR ''-'' then CHR ''+'' else if ch = CHR ''_'' then CHR ''/'' else ch"
  from Cons.prems have c: "c \<noteq> CHR ''-''" "c \<noteq> CHR ''_''" "c \<noteq> CHR ''=''"
    using base64_char_plain by auto
  from Cons have ih: "map ?h (base64ToWebSafe_' cs) = cs"
    "length (base64ToWebSafe_' cs) = length cs"
    by auto
  have "base64ToWebSafe_' (c # cs) = base64ToWebSafe_' [c] @ base64ToWebSafe_' cs"
    using replace_class_append [of _ _ "[c]" cs] by (simp add: base64ToWebSafe_'_def)
  moreover have "map ?h (base64ToWebSafe_' [c]) = [c]"
    using c by (simp add: base64ToWebSafe_'_def replace_class_def)
  moreover have "length (base64ToWebSafe_' [c]) = 1"
    using c by (simp add: base64ToWebSafe_'_def replace_class_def)
  ultimately show ?case using ih by simp
qed

lemma websafe_pad:
  "pad = [] \<or> pad = ''='' \<or> pad = ''=='' \<Longrightarrow> base64ToWebSafe_' pad = []"
  by (auto simp: base64ToWebSafe_'_def replace_class_def)

text \<open>
  C3. Round trip: for every valid standard base64 string \<open>x\<close> (padded, of a length
  divisible by 4), \<^verbatim>\<open>webSafeToBase64_(base64ToWebSafe_(x))\<close> returns \<open>x\<close>; it does not
  throw the invalid-length error and leaves the socket as it was.
\<close>

theorem websafe_roundtrip:
  assumes "valid_base64 x"
  shows "webSafeToBase64_' (base64ToWebSafe_' x) w = (Inr x, w)"
proof -
  let ?h = "\<lambda>ch. if ch = CHR ''-'' then CHR ''+'' else if ch = CHR ''_'' then CHR ''/'' else ch"
  define body where "body = takeWhile (\<lambda>c. c \<noteq> CHR ''='') x"
  define pad where "pad = dropWhile (\<lambda>c. c \<noteq> CHR ''='') x"
  have x: "x = body @ pad" by (simp add: body_def pad_def)
  from assms have len: "length x mod 4 = 0" and body: "list_all base64_char body"
    and pad: "pad = [] \<or> pad = ''='' \<or> pad = ''==''"
    by (simp_all add: valid_base64_def Let_def body_def pad_def)
  have enc: "base64ToWebSafe_' x = base64ToWebSafe_' body"
    using websafe_pad [OF pad] replace_class_append [of _ _ body pad]
    by (simp add: x base64ToWebSafe_'_def)
  have dec: "map ?h (base64ToWebSafe_' x) = body"
    and n: "length (base64ToWebSafe_' x) = length body"
    using websafe_body_roundtrip [OF body] enc by simp_all
  from pad show ?thesis
  proof (elim disjE)
    assume p: "pad = []"
    with len x have "length body mod 4 = 0" by simp
    with p x dec n show ?thesis by (simp add: webSafeToBase64_map)
  next
    assume p: "pad = ''=''"
    with len x have "(length body + 1) mod 4 = 0" by simp
    then have "length body mod 4 = 3" by presburger
    with p x dec n show ?thesis by (simp add: webSafeToBase64_map)
  next
    assume p: "pad = ''==''"
    with len x have "(length body + 2) mod 4 = 0" by simp
    then have "length body mod 4 = 2" by presburger
    with p x dec n show ?thesis by (simp add: webSafeToBase64_map)
  qed
qed

theorem websafe_roundtrip_witness:
  "valid_base64 ''+/8='' \<and>
   base64ToWebSafe_' ''+/8='' = ''-_8'' \<and>
   webSafeToBase64_' (base64ToWebSafe_' ''+/8='') Socket = (Inr ''+/8='', Socket)"
  using websafe_roundtrip [of "''+/8=''" Socket]
  by (simp add: valid_base64_def base64_char_def base64ToWebSafe_'_def replace_class_def)

text \<open>
  C8. \<^verbatim>\<open>webSafeToBase64_\<close> maps \<^verbatim>\<open>-\<close> to \<^verbatim>\<open>+\<close> and \<^verbatim>\<open>_\<close> to \<^verbatim>\<open>/\<close> and keeps the
  other characters; it then appends \<^verbatim>\<open>==\<close> when the length of the input is 2 modulo 4,
  \<^verbatim>\<open>=\<close> when it is 3, nothing when it is 0, and for the one remainder left, 1, it closes
  the stream and throws instead of returning a value.
\<close>

theorem webSafeToBase64_padding:
  "webSafeToBase64_' s w =
     (let t = map (\<lambda>ch. if ch = CHR ''-'' then CHR ''+''
                         else if ch = CHR ''_'' then CHR ''/'' else ch) s
      in if length s mod 4 = 2 then (Inr (t @ ''==''), w)
         else if length s mod 4 = 3 then (Inr (t @ ''=''), w)
         else if length s mod 4 = 0 then (Inr t, w)
         else (Inl (InvalidWebSafeLength (length s)), w\<lparr>closed := True\<rparr>))"
  by (fact webSafeToBase64_map)

theorem webSafeToBase64_padding_witness:
  "webSafeToBase64_' ''a-_b-_'' Socket = (Inr ''a+/b+/=='', Socket) \<and>
   webSafeToBase64_' ''a-_'' Socket = (Inr ''a+/='', Socket) \<and>
   webSafeToBase64_' ''a-_b'' Socket = (Inr ''a+/b'', Socket) \<and>
   webSafeToBase64_' ''a-_b-'' Socket = (Inl (InvalidWebSafeLength 5), Socket\<lparr>closed := True\<rparr>)"
  using webSafeToBase64_padding [of "''a-_b-_''" Socket] webSafeToBase64_padding [of "''a-_''" Socket]
    webSafeToBase64_padding [of "''a-_b''" Socket] webSafeToBase64_padding [of "''a-_b-''" Socket]
  by simp

section \<open>Backoff\<close>

lemma onRequestError_effect:
  "onRequestError_' e w =
     (let d = (if backoffMS_' w = 0 then 1 else backoffMS_' w)
      in w\<lparr>backoffMS_' := d * 2 + 93,
            overlays := overlays w @ (if d \<ge> 1000 then [(''RELAY_RETRY'', d + 500)] else []),
            timers := timers w @ [(if e = ReadRequest then ResumeRead else ServiceWriteQueue, d)]\<rparr>)"
  by (simp add: onRequestError_'_def Let_def)

lemma retryDelay_eq: "retryDelay e w = (if backoffMS_' w = 0 then 1 else backoffMS_' w)"
  by (simp add: retryDelay_def onRequestError_effect Let_def)

lemma odd_backoff: "(d::int) * 2 + 93 \<noteq> 0"
  by presburger

lemma retryDelay_after: "retryDelay e' (onRequestError_' e w) = 2 * retryDelay e' w + 93"
  using odd_backoff by (simp add: retryDelay_eq onRequestError_effect Let_def)

lemma delays_fold:
  "map snd (timers (fold onRequestError_' es w)) =
     map snd (timers w) @ map (\<lambda>k. (retryDelay ReadRequest w + 93) * 2 ^ k - 93) [0..<length es]"
proof (induction es arbitrary: w)
  case Nil
  show ?case by simp
next
  case (Cons e es)
  define D where "D = retryDelay ReadRequest w"
  have up: "[0..<length (e # es)] = 0 # map Suc [0..<length es]"
    using upt_conv_Cons [of 0 "Suc (length es)"] by (simp only: map_Suc_upt list.size) simp
  have t: "map snd (timers (onRequestError_' e w)) = map snd (timers w) @ [D]"
    by (simp add: D_def retryDelay_eq onRequestError_effect Let_def)
  have d: "retryDelay ReadRequest (onRequestError_' e w) + 93 = (D + 93) * 2"
    by (simp add: D_def retryDelay_after)
  have "map snd (timers (fold onRequestError_' (e # es) w)) =
          map snd (timers (onRequestError_' e w)) @
          map (\<lambda>k. ((D + 93) * 2) * 2 ^ k - 93) [0..<length es]"
    using Cons.IH [of "onRequestError_' e w"] by (simp only: d fold_Cons comp_def)
  also have "\<dots> = map snd (timers w) @ D # map (\<lambda>k. (D + 93) * 2 ^ Suc k - 93) [0..<length es]"
    by (simp only: t power_Suc mult.assoc append_assoc append_Cons append_Nil)
  also have "\<dots> = map snd (timers w) @ map (\<lambda>k. (D + 93) * 2 ^ k - 93) [0..<length (e # es)]"
    by (simp only: up list.map map_map comp_def) simp
  finally show ?case by (simp only: D_def)
qed

lemma backoff_fold:
  "es \<noteq> [] \<Longrightarrow>
     backoffMS_' (fold onRequestError_' es w) = (retryDelay ReadRequest w + 93) * 2 ^ length es - 93"
proof (induction es arbitrary: w)
  case Nil
  then show ?case by simp
next
  case (Cons e es)
  define D where "D = retryDelay ReadRequest w"
  have b: "backoffMS_' (onRequestError_' e w) = (D + 93) * 2 - 93"
    by (simp add: D_def retryDelay_eq onRequestError_effect Let_def)
  have d: "retryDelay ReadRequest (onRequestError_' e w) + 93 = (D + 93) * 2"
    by (simp add: D_def retryDelay_after)
  show ?case
  proof (cases "es = []")
    case True
    then show ?thesis using b by (simp add: D_def)
  next
    case False
    have "backoffMS_' (fold onRequestError_' (e # es) w) = ((D + 93) * 2) * 2 ^ length es - 93"
      using Cons.IH [OF False, of "onRequestError_' e w"] by (simp only: d fold_Cons comp_def)
    then show ?thesis by (simp add: D_def mult.assoc)
  qed
qed

text \<open>
  C4. Starting from a backoff of 0, consecutive failures handled by
  \<^verbatim>\<open>onRequestError_\<close> (on whichever request) schedule their retries after
  1, 95, 283, 659, 1411, ... milliseconds: the \<open>k\<close>-th delay, counted from 0, is
  \<open>94 * 2 ^ k - 93\<close>. In any state \<open>v\<close> a failure schedules its retry after the
  current backoff, 0 taken as 1, and then sets the backoff to twice that plus 93;
  \<^verbatim>\<open>clearBackoff_\<close> sets it to 0.
\<close>

theorem backoff_sequence:
  assumes "backoffMS_' w = 0"
  shows "map snd (timers (fold onRequestError_' es w)) =
           map snd (timers w) @ map (\<lambda>k. 94 * 2 ^ k - 93) [0..<length es] \<and>
         map snd (timers (fold onRequestError_' [e1, e2, e3, e4, e5] w)) =
           map snd (timers w) @ [1, 95, 283, 659, 1411] \<and>
         timers (onRequestError_' e v) =
           timers v @ [(if e = ReadRequest then ResumeRead else ServiceWriteQueue,
                        if backoffMS_' v = 0 then 1 else backoffMS_' v)] \<and>
         backoffMS_' (onRequestError_' e v) =
           (if backoffMS_' v = 0 then 1 else backoffMS_' v) * 2 + 93 \<and>
         backoffMS_' (clearBackoff_' v) = 0"
proof (intro conjI)
  from assms have r: "retryDelay ReadRequest w + 93 = 94" by (simp add: retryDelay_eq)
  show "map snd (timers (fold onRequestError_' es w)) =
        map snd (timers w) @ map (\<lambda>k. 94 * 2 ^ k - 93) [0..<length es]"
    by (simp add: delays_fold r)
  have "[0..<length [e1, e2, e3, e4, e5]] = [0, 1, 2, 3, 4]"
    by (simp add: upt_conv_Cons)
  then show "map snd (timers (fold onRequestError_' [e1, e2, e3, e4, e5] w)) =
        map snd (timers w) @ [1, 95, 283, 659, 1411]"
    using delays_fold [of "[e1, e2, e3, e4, e5]" w] by (simp only: r) simp
next
  show "timers (onRequestError_' e v) =
     timers v @ [(if e = ReadRequest then ResumeRead else ServiceWriteQueue,
                  if backoffMS_' v = 0 then 1 else backoffMS_' v)]"
    by (simp add: onRequestError_effect Let_def)
  show "backoffMS_' (onRequestError_' e v) = (if backoffMS_' v = 0 then 1 else backoffMS_' v) * 2 + 93"
    by (simp add: onRequestError_effect Let_def)
  show "backoffMS_' (clearBackoff_' v) = 0"
    by (simp add: clearBackoff_'_def)
qed

theorem backoff_sequence_witness:
  "backoffMS_' Socket = 0 \<and>
   map snd (timers (fold onRequestError_'
     [ReadRequest, ReadRequest, WriteRequest, ReadRequest, WriteRequest] Socket)) =
     [1, 95, 283, 659, 1411] \<and>
   backoffMS_' (clearBackoff_' (onRequestError_' ReadRequest Socket)) = 0"
  using backoff_sequence [of Socket "[]" ReadRequest ReadRequest WriteRequest ReadRequest
      WriteRequest ReadRequest "onRequestError_' ReadRequest Socket"]
  by (simp add: Socket_def)

text \<open>
  C9. \<^verbatim>\<open>onRequestError_\<close> shows the retry notice if and only if the delay it backs off
  for (the backoff, 0 taken as 1) is at least 1000 ms; it then shows it once, for
  that delay plus 500 ms, and schedules the retry after that delay.
\<close>

theorem retry_notice:
  "overlays (onRequestError_' e w) =
     overlays w @ (if 1000 \<le> retryDelay e w then [(''RELAY_RETRY'', retryDelay e w + 500)] else []) \<and>
   timers (onRequestError_' e w) =
     timers w @ [(if e = ReadRequest then ResumeRead else ServiceWriteQueue, retryDelay e w)] \<and>
   retryDelay e w = (if backoffMS_' w = 0 then 1 else backoffMS_' w)"
  by (simp add: retryDelay_eq onRequestError_effect Let_def)

theorem retry_notice_witness:
  "overlays (onRequestError_' WriteRequest (Socket\<lparr>backoffMS_' := 659\<rparr>)) = [] \<and>
   overlays (onRequestError_' WriteRequest (Socket\<lparr>backoffMS_' := 1411\<rparr>)) = [(''RELAY_RETRY'', 1911)] \<and>
   timers (onRequestError_' WriteRequest (Socket\<lparr>backoffMS_' := 1411\<rparr>)) = [(ServiceWriteQueue, 1411)]"
  using retry_notice [of WriteRequest "Socket\<lparr>backoffMS_' := 659\<rparr>"]
    retry_notice [of WriteRequest "Socket\<lparr>backoffMS_' := 1411\<rparr>"]
  by (simp add: Socket_def)

text \<open>
  C2, as amended. The socket has one backoff, \<^verbatim>\<open>backoffMS_\<close>, for both requests: the
  delay of the next retry is the same for a read and for a write, and a failure of
  either request takes it from \<open>d\<close> to \<open>2 * d + 93\<close> for both.
\<close>

theorem shared_backoff:
  "retryDelay ReadRequest w = retryDelay WriteRequest w \<and>
   retryDelay e' (onRequestError_' e w) = 2 * retryDelay e' w + 93"
  using retryDelay_after [of e' e w] by (simp add: retryDelay_eq)

theorem shared_backoff_witness:
  "retryDelay WriteRequest Socket = 1 \<and>
   retryDelay WriteRequest (onRequestError_' ReadRequest Socket) = 95"
  using shared_backoff [of Socket WriteRequest ReadRequest]
  by (simp add: retryDelay_eq Socket_def)

text \<open>
  C2 as stated fails: on an opened socket a write failure would be retried after 1 ms;
  once a read has failed, it is retried after 95 ms.
\<close>

theorem independent_backoff_counterexample:
  "\<not> (retryDelay WriteRequest (step ReadFail opened) = retryDelay WriteRequest opened)"
  by (simp add: retryDelay_eq opened_def run_def asyncOpen_'_def onReady_def resumeRead_'_def
      onReadReady_'_def onRequestError_def onRequestError_effect Socket_def Let_def)

section \<open>Splitting a write into chunks\<close>

lemma chunk_count_step:
  "maxMessageLength < n \<Longrightarrow> (n - 1) div maxMessageLength = (n - maxMessageLength - 1) div maxMessageLength + 1"
proof -
  assume a: "maxMessageLength < n"
  have p: "0 < maxMessageLength" by (simp add: maxMessageLength_def)
  from a have "maxMessageLength \<le> n - 1" by simp
  from le_div_geq [OF p this] have "(n - 1) div maxMessageLength = Suc ((n - 1 - maxMessageLength) div maxMessageLength)" .
  moreover have "n - 1 - maxMessageLength = n - maxMessageLength - 1" by simp
  ultimately show ?thesis by simp
qed

lemma chunk_count_zero:
  "\<not> maxMessageLength < n \<Longrightarrow> (n - 1) div maxMessageLength = 0"
  by (cases n) (simp_all add: maxMessageLength_def)

lemma push_chunks_done:
  "\<not> maxMessageLength < length d \<Longrightarrow> push_chunks q d = (q, d)"
  by (subst push_chunks.simps) simp

lemma push_chunks_more:
  "maxMessageLength < length d \<Longrightarrow>
     push_chunks q d = push_chunks (q @ [take maxMessageLength d]) (drop maxMessageLength d)"
  by (subst push_chunks.simps) simp

lemma push_chunks_spec:
  "\<exists>cs r. push_chunks q d = (q @ cs, r) \<and> concat cs @ r = d \<and>
      (\<forall>c\<in>set cs. length c = maxMessageLength) \<and> length r \<le> maxMessageLength \<and>
      length cs = (length d - 1) div maxMessageLength"
proof (induction q d rule: push_chunks.induct)
  case (1 q d)
  show ?case
  proof (cases "maxMessageLength < length d")
    case False
    have "push_chunks q d = (q @ [], d)"
      using push_chunks_done [OF False] by simp
    moreover have "concat [] @ d = d" by simp
    moreover have "length d \<le> maxMessageLength" using False by simp
    moreover have "length ([] :: string list) = (length d - 1) div maxMessageLength"
      using chunk_count_zero [OF False] by simp
    ultimately show ?thesis by fastforce
  next
    case True
    let ?c = "take maxMessageLength d"
    let ?d = "drop maxMessageLength d"
    from "1.IH" [OF True] obtain cs r where
      ih1: "push_chunks (q @ [?c]) ?d = ((q @ [?c]) @ cs, r)" and
      ih2: "concat cs @ r = ?d" and
      ih3: "\<forall>c\<in>set cs. length c = maxMessageLength" and
      ih4: "length r \<le> maxMessageLength" and
      ih5: "length cs = (length ?d - 1) div maxMessageLength"
      by blast
    have p: "push_chunks q d = (q @ (?c # cs), r)"
      using push_chunks_more [OF True] ih1 by simp
    have c: "concat (?c # cs) @ r = d"
      using ih2 by simp
    have "length ?c = maxMessageLength" using True by simp
    then have l: "\<forall>c\<in>set (?c # cs). length c = maxMessageLength"
      using ih3 by simp
    have n: "length (?c # cs) = (length d - 1) div maxMessageLength"
      using ih5 chunk_count_step [OF True] by simp
    show ?thesis using p c l ih4 n by blast
  qed
qed

lemma ceiling_chunks:
  assumes "0 < L"
  shows "\<lceil>real L / 1024\<rceil> = int ((L - 1) div 1024 + 1)"
proof -
  define q where "q = (L - 1) div 1024"
  define r where "r = (L - 1) mod 1024"
  have "L - 1 = 1024 * q + r" by (simp add: q_def r_def)
  with assms have L: "L = 1024 * q + r + 1" by linarith
  have r: "r < 1024" by (simp add: r_def)
  have rl: "real L = 1024 * real q + real r + 1"
    by (subst L) simp
  have lo: "real_of_int (int (q + 1)) - 1 < real L / 1024"
    using rl by simp
  have hi: "real L / 1024 \<le> real_of_int (int (q + 1))"
    using rl r by simp
  show ?thesis
    unfolding q_def [symmetric] by (rule ceiling_unique) (use lo hi in auto)
qed

lemma serviceWriteQueue_queue: "writeQueue_' (serviceWriteQueue_' w) = writeQueue_' w"
  by (simp add: serviceWriteQueue_'_def Let_def)

text \<open>
  C5. When the web-safe encoding of the data is longer than \<^verbatim>\<open>maxMessageLength\<close>
  (1024), of length \<open>L\<close>, \<^verbatim>\<open>asyncWrite\<close> returns normally and appends to the write queue
  exactly \<open>\<lceil>L / 1024\<rceil>\<close> chunks, each at most 1024 long, whose concatenation in
  queue order is the whole encoding.
\<close>

theorem asyncWrite_chunks:
  assumes "length (base64ToWebSafe_' data) > maxMessageLength"
  shows "let L = length (base64ToWebSafe_' data);
             w' = snd (asyncWrite data False w);
             cs = drop (length (writeQueue_' w)) (writeQueue_' w')
         in fst (asyncWrite data False w) = None \<and>
            writeQueue_' w' = writeQueue_' w @ cs \<and>
            int (length cs) = \<lceil>real L / 1024\<rceil> \<and>
            list_all (\<lambda>c. length c \<le> 1024) cs \<and>
            concat cs = base64ToWebSafe_' data"
proof -
  let ?d = "base64ToWebSafe_' data"
  from assms have ne: "data \<noteq> []"
    by (auto simp: base64ToWebSafe_'_def replace_class_def)
  from assms have pos: "0 < length ?d" by (auto simp: maxMessageLength_def)
  obtain cs r where pc: "push_chunks (writeQueue_' w) ?d = (writeQueue_' w @ cs, r)"
    and cat: "concat cs @ r = ?d"
    and len: "\<forall>c\<in>set cs. length c = maxMessageLength"
    and r: "length r \<le> maxMessageLength"
    and n: "length cs = (length ?d - 1) div maxMessageLength"
    using push_chunks_spec [of "writeQueue_' w" ?d] by blast
  have q: "writeQueue_' (snd (asyncWrite data False w)) = writeQueue_' w @ (cs @ [r])"
    using ne pc by (simp add: asyncWrite_def Let_def serviceWriteQueue_queue)
  have ok: "fst (asyncWrite data False w) = None"
    using ne pc by (simp add: asyncWrite_def Let_def)
  have cnt: "int (length (cs @ [r])) = \<lceil>real (length ?d) / 1024\<rceil>"
    using n ceiling_chunks [OF pos] by (simp add: maxMessageLength_def)
  have all: "list_all (\<lambda>c. length c \<le> 1024) (cs @ [r])"
    using len r by (simp add: list_all_iff maxMessageLength_def)
  have whole: "concat (cs @ [r]) = ?d" using cat by simp
  show ?thesis
    using q ok cnt all whole by (simp only: Let_def append_eq_conv_conj drop_append length_append) simp
qed

lemma websafe_replicate_length:
  "length (base64ToWebSafe_' (replicate n CHR ''/'')) = n"
  by (simp add: base64ToWebSafe_'_def replace_class_def length_concat sum_list_replicate)

theorem asyncWrite_chunks_witness:
  "maxMessageLength < length (base64ToWebSafe_' (replicate 2500 CHR ''/'')) \<and>
   (let w' = snd (asyncWrite (replicate 2500 CHR ''/'') False opened);
        cs = drop (length (writeQueue_' opened)) (writeQueue_' w')
    in length cs = 3 \<and> list_all (\<lambda>c. length c \<le> 1024) cs \<and>
       concat cs = base64ToWebSafe_' (replicate 2500 CHR ''/''))"
proof -
  have h: "maxMessageLength < length (base64ToWebSafe_' (replicate 2500 CHR ''/''))"
    by (simp add: websafe_replicate_length maxMessageLength_def)
  have c: "\<lceil>real (length (base64ToWebSafe_' (replicate 2500 CHR ''/''))) / 1024\<rceil> = 3"
    by (simp add: websafe_replicate_length ceiling_chunks)
  show ?thesis
    using h c asyncWrite_chunks [OF h, of opened] by (simp add: Let_def)
qed

section \<open>The read loop\<close>

lemma floor_three_quarters: "\<lfloor>real n * 3 / 4\<rfloor> = int (n * 3 div 4)"
proof -
  have "real n * 3 / 4 = real (n * 3) / real 4" by simp
  then show ?thesis by (simp only: floor_divide_of_nat_eq)
qed


lemma readRequests_update [simp]:
  "readRequests (w\<lparr>readInFlight := b\<rparr>) = readRequests w"
  "readRequests (w\<lparr>writeInFlight := b\<rparr>) = readRequests w"
  "readRequests (w\<lparr>sessionInFlight := b\<rparr>) = readRequests w"
  "readRequests (w\<lparr>timers := ts\<rparr>) = readRequests w"
  "readRequests (w\<lparr>closed := c\<rparr>) = readRequests w"
  "readRequests (w\<lparr>overlays := ov\<rparr>) = readRequests w"
  "readRequests (w\<lparr>delivered := dl\<rparr>) = readRequests w"
  "readRequests (w\<lparr>backoffMS_' := n\<rparr>) = readRequests w"
  "readRequests (w\<lparr>writeQueue_' := q\<rparr>) = readRequests w"
  "readRequests (w\<lparr>writeCount_' := n\<rparr>) = readRequests w"
  "readRequests (w\<lparr>readCount_' := n\<rparr>) = readRequests w"
  "readRequests (w\<lparr>sent := sent w @ [WriteGET rs sid cnt msg]\<rparr>) = readRequests w"
  "readRequests (w\<lparr>sent := sent w @ [ReadGET rs sid cnt]\<rparr>) = readRequests w @ [ReadGET rs sid cnt]"
  by (simp_all add: readRequests_def isRead_def)

lemma serviceWriteQueue_read [simp]:
  "readInFlight (serviceWriteQueue_' w) = readInFlight w"
  "sessionInFlight (serviceWriteQueue_' w) = sessionInFlight w"
  "timers (serviceWriteQueue_' w) = timers w"
  "delivered (serviceWriteQueue_' w) = delivered w"
  "closed (serviceWriteQueue_' w) = closed w"
  "readRequests (serviceWriteQueue_' w) = readRequests w"
  by (simp_all add: serviceWriteQueue_'_def Let_def)

lemma onWriteDone_read [simp]:
  "readInFlight (snd (onWriteDone_' rs st w)) = readInFlight w"
  "sessionInFlight (snd (onWriteDone_' rs st w)) = sessionInFlight w"
  "timers (snd (onWriteDone_' rs st w)) = timers w"
  "delivered (snd (onWriteDone_' rs st w)) = delivered w"
  "readRequests (snd (onWriteDone_' rs st w)) = readRequests w"
  "closed w \<Longrightarrow> closed (snd (onWriteDone_' rs st w))"
  by (simp_all add: onWriteDone_'_def onRequestError_def close_def clearBackoff_'_def Let_def
      split: list.splits)

lemma asyncWrite_read [simp]:
  "readInFlight (snd (asyncWrite d cb w)) = readInFlight w"
  "sessionInFlight (snd (asyncWrite d cb w)) = sessionInFlight w"
  "timers (snd (asyncWrite d cb w)) = timers w"
  "delivered (snd (asyncWrite d cb w)) = delivered w"
  "closed (snd (asyncWrite d cb w)) = closed w"
  "readRequests (snd (asyncWrite d cb w)) = readRequests w"
  by (simp_all add: asyncWrite_def Let_def split: prod.splits)

lemma onRequestError_read [simp]:
  "readInFlight (onRequestError_' e w) = readInFlight w"
  "sessionInFlight (onRequestError_' e w) = sessionInFlight w"
  "delivered (onRequestError_' e w) = delivered w"
  "closed (onRequestError_' e w) = closed w"
  "sent (onRequestError_' e w) = sent w"
  "readRequests (onRequestError_' e w) = readRequests w"
  "timers (onRequestError_' e w) =
     timers w @ [(if e = ReadRequest then ResumeRead else ServiceWriteQueue,
                  if backoffMS_' w = 0 then 1 else backoffMS_' w)]"
  by (simp_all add: onRequestError_'_def Let_def)

lemma readRetryPending_Timeout:
  "\<not> readRetryPending w \<Longrightarrow> k < length (timers w) \<Longrightarrow>
     fst (timers w ! k) = ServiceWriteQueue \<and>
     \<not> list_ex (\<lambda>t. fst t = ResumeRead) (take k (timers w) @ drop (Suc k) (timers w))"
proof -
  assume a: "\<not> readRetryPending w" and k: "k < length (timers w)"
  then have all: "\<forall>t\<in>set (timers w). fst t \<noteq> ResumeRead"
    by (simp add: readRetryPending_def list_ex_iff)
  from k have "timers w ! k \<in> set (timers w)" by simp
  with all have "fst (timers w ! k) \<noteq> ResumeRead" by blast
  then have f: "fst (timers w ! k) = ServiceWriteQueue" by (cases "fst (timers w ! k)") auto
  have "set (take k (timers w) @ drop (Suc k) (timers w)) \<subseteq> set (timers w)"
    using set_take_subset set_drop_subset by fastforce
  with all have "\<forall>t\<in>set (take k (timers w) @ drop (Suc k) (timers w)). fst t \<noteq> ResumeRead"
    by blast
  with f show ?thesis by (simp add: list_ex_iff)
qed

lemma step_Timeout_no_read:
  assumes "\<not> readRetryPending w"
  shows "readInFlight (step (Timeout k) w) = readInFlight w \<and>
         sessionInFlight (step (Timeout k) w) = sessionInFlight w \<and>
         \<not> readRetryPending (step (Timeout k) w) \<and>
         delivered (step (Timeout k) w) = delivered w \<and>
         readRequests (step (Timeout k) w) = readRequests w \<and>
         closed (step (Timeout k) w) = closed w"
proof (cases "k < length (timers w)")
  case False
  then show ?thesis using assms by simp
next
  case True
  from readRetryPending_Timeout [OF assms True] show ?thesis
    using True by (simp add: fire_def readRetryPending_def)
qed

lemma step_readStopped:
  assumes "readStopped w"
  shows "readStopped (step e w) \<and> delivered (step e w) = delivered w \<and>
         readRequests (step e w) = readRequests w \<and> (closed w \<longrightarrow> closed (step e w))"
proof (cases e)
  case (Timeout k)
  then show ?thesis using assms step_Timeout_no_read [of w k] by (simp add: readStopped_def)
next
  case WriteFail
  then show ?thesis using assms
    by (simp add: readStopped_def readRetryPending_def)
qed (use assms in \<open>simp_all add: readStopped_def readRetryPending_def close_def\<close>)

lemma run_readStopped:
  "readStopped w \<Longrightarrow>
     readStopped (run evs w) \<and> delivered (run evs w) = delivered w \<and>
     readRequests (run evs w) = readRequests w \<and> (closed w \<longrightarrow> closed (run evs w))"
proof (induction evs arbitrary: w)
  case Nil
  then show ?case by (simp add: run_def)
next
  case (Cons e evs)
  from step_readStopped [OF Cons.prems, of e] Cons.IH [of "step e w"]
  show ?case by (simp add: run_def)
qed


lemma resumeRead_read [simp]:
  "readInFlight (resumeRead_' w) = True"
  "sessionInFlight (resumeRead_' w) = sessionInFlight w"
  "timers (resumeRead_' w) = timers w"
  "delivered (resumeRead_' w) = delivered w"
  "closed (resumeRead_' w) = closed w"
  "readRequests (resumeRead_' w) =
     readRequests w @ [ReadGET (relayServer w) (sessionID_' w) (readCount_' w)]"
  by (simp_all add: resumeRead_'_def)

lemma onReadReady_good:
  assumes "length body mod 4 \<noteq> 1"
  shows "fst (onReadReady_' 4 200 body w) = None \<and>
         readInFlight (snd (onReadReady_' 4 200 body w)) \<and>
         length (delivered (snd (onReadReady_' 4 200 body w))) = length (delivered w) + 1 \<and>
         timers (snd (onReadReady_' 4 200 body w)) = timers w \<and>
         sessionInFlight (snd (onReadReady_' 4 200 body w)) = sessionInFlight w \<and>
         closed (snd (onReadReady_' 4 200 body w)) = closed w \<and>
         length (readRequests (snd (onReadReady_' 4 200 body w))) = length (readRequests w) + 1"
proof -
  from assms have "length body mod 4 = 2 \<or> length body mod 4 = 3 \<or> length body mod 4 = 0"
    by presburger
  then show ?thesis
    by (elim disjE)
      (simp_all add: onReadReady_'_def webSafeToBase64_map Let_def onDataAvailable_def
        clearBackoff_'_def)
qed

lemma step_reading:
  assumes "reading w" and "goodRead e"
  shows "reading (step e w) \<and>
         length (delivered (step e w)) = length (delivered w) + (if isReadEnd e then 1 else 0) \<and>
         length (readRequests (step e w)) = length (readRequests w) + (if isReadEnd e then 1 else 0)"
proof (cases e)
  case (ReadLoadEnd status body)
  with assms(2) have g: "status = 200" "length body mod 4 \<noteq> 1" by simp_all
  from assms(1) have "readInFlight w" by (simp add: reading_def)
  then have s: "step e w = snd (onReadReady_' 4 200 body (w\<lparr>readInFlight := False\<rparr>))"
    using ReadLoadEnd g by simp
  have i: "isReadEnd e" using ReadLoadEnd by simp
  show ?thesis
    using assms(1) onReadReady_good [OF g(2), of "w\<lparr>readInFlight := False\<rparr>"]
    unfolding s by (simp add: i reading_def readRetryPending_def)
next
  case ReadFail
  with assms(2) show ?thesis by simp
next
  case (Timeout k)
  then show ?thesis using assms(1) step_Timeout_no_read [of w k] by (simp add: reading_def)
qed (use assms in \<open>simp_all add: reading_def readRetryPending_def close_def\<close>)

lemma run_reading:
  "reading w \<Longrightarrow> list_all goodRead evs \<Longrightarrow>
     reading (run evs w) \<and>
     length (delivered (run evs w)) = length (delivered w) + length (filter isReadEnd evs) \<and>
     length (readRequests (run evs w)) = length (readRequests w) + length (filter isReadEnd evs)"
proof (induction evs arbitrary: w)
  case Nil
  then show ?case by (simp add: run_def)
next
  case (Cons e evs)
  from Cons.prems have g: "goodRead e" "list_all goodRead evs" by simp_all
  from step_reading [OF Cons.prems(1) g(1)] Cons.IH [of "step e w", OF _ g(2)]
  show ?case by (simp add: run_def)
qed

lemma step_gone:
  assumes "reading w"
  shows "readStopped (step (ReadLoadEnd 410 body) w) \<and> closed (step (ReadLoadEnd 410 body) w) \<and>
         delivered (step (ReadLoadEnd 410 body) w) = delivered w \<and>
         readRequests (step (ReadLoadEnd 410 body) w) = readRequests w"
  using assms
  by (simp add: reading_def readStopped_def readRetryPending_def onReadReady_'_def close_def)

lemmas socket_defs = Socket_def close_def onDataAvailable_def onRequestError_def
  webSafeToBase64_'_def base64ToWebSafe_'_def replace_class_def resumeRead_'_def
  serviceWriteQueue_'_def asyncWrite_def clearBackoff_'_def onRequestError_'_def
  onReadReady_'_def onWriteDone_'_def asyncOpen_'_def onError_def onReady_def fire_def
  run_def opened_def Let_def

lemma opened_reading: "reading opened"
  by (simp add: reading_def readRetryPending_def socket_defs)

lemma opened_counts:
  "length (delivered opened) = 0 \<and> length (readRequests opened) = 1"
  by (simp add: readRequests_def isRead_def socket_defs)

lemma filter_without_nth:
  assumes "k < length ts"
  shows "length (filter P ts) =
           length (filter P (take k ts @ drop (Suc k) ts)) + (if P (ts ! k) then 1 else 0)"
proof -
  have "ts = take k ts @ ts ! k # drop (Suc k) ts"
    using assms by (rule id_take_nth_drop)
  then have "length (filter P ts) = length (filter P (take k ts @ ts ! k # drop (Suc k) ts))"
    by simp
  then show ?thesis by simp
qed

lemma readTokens_reading:
  "readTokens w \<le> 1 \<Longrightarrow> readInFlight w \<Longrightarrow> reading w"
  by (auto simp: readTokens_def reading_def readRetryPending_def list_ex_iff filter_empty_conv
      split: if_splits)

lemma reading_readTokens: "reading w \<Longrightarrow> readTokens w \<le> 1"
  by (auto simp: readTokens_def reading_def readRetryPending_def list_ex_iff filter_empty_conv)

lemma onReadReady_tokens:
  "readInFlight (snd (onReadReady_' rs st body w)) \<or>
   readInFlight (snd (onReadReady_' rs st body w)) = readInFlight w"
  "sessionInFlight (snd (onReadReady_' rs st body w)) = sessionInFlight w"
  "timers (snd (onReadReady_' rs st body w)) = timers w"
  by (simp_all add: onReadReady_'_def onRequestError_def close_def webSafeToBase64_map Let_def
      onDataAvailable_def clearBackoff_'_def)

lemma step_readTokens:
  assumes "readTokens w \<le> 1"
  shows "readTokens (step e w) \<le> 1"
proof (cases e)
  case (SessionLoadEnd st body)
  then show ?thesis using assms
    by (auto simp: readTokens_def onReady_def onError_def Let_def split: if_splits)
next
  case SessionFail
  then show ?thesis using assms
    by (auto simp: readTokens_def onReady_def onError_def Let_def split: if_splits)
next
  case (ReadLoadEnd st body)
  show ?thesis
  proof (cases "readInFlight w")
    case False
    then show ?thesis using assms ReadLoadEnd by simp
  next
    case True
    let ?v = "snd (onReadReady_' 4 st body (w\<lparr>readInFlight := False\<rparr>))"
    have "readTokens ?v \<le> readTokens w"
      using True onReadReady_tokens [of 4 st body "w\<lparr>readInFlight := False\<rparr>"]
      by (auto simp: readTokens_def)
    then show ?thesis using assms True ReadLoadEnd by simp
  qed
next
  case ReadFail
  show ?thesis
  proof (cases "readInFlight w")
    case False
    then show ?thesis using assms ReadFail by simp
  next
    case True
    then show ?thesis using assms ReadFail
      by (auto simp: readTokens_def onReadReady_'_def onRequestError_def split: if_splits)
  qed
next
  case (WriteLoadEnd st)
  then show ?thesis using assms by (auto simp: readTokens_def)
next
  case WriteFail
  then show ?thesis using assms
    by (auto simp: readTokens_def)
next
  case (Timeout k)
  show ?thesis
  proof (cases "k < length (timers w)")
    case False
    then show ?thesis using assms Timeout by simp
  next
    case True
    from filter_without_nth [OF True, of "\<lambda>t. fst t = ResumeRead"] show ?thesis
      using assms Timeout True
      by (cases "fst (timers w ! k)") (auto simp: readTokens_def fire_def split: if_splits)
  qed
next
  case (CallAsyncWrite d)
  then show ?thesis using assms by (auto simp: readTokens_def)
next
  case CallClose
  then show ?thesis using assms by (auto simp: readTokens_def close_def)
qed

lemma run_readTokens: "readTokens w \<le> 1 \<Longrightarrow> readTokens (run evs w) \<le> 1"
proof (induction evs arbitrary: w)
  case Nil
  then show ?case by (simp add: run_def)
next
  case (Cons e evs)
  from Cons.IH [OF step_readTokens [OF Cons.prems, of e]] show ?case by (simp add: run_def)
qed

text \<open>
  C7, as amended. When a read ends with status 410 the stream is closed at once and no
  read request is ever sent again: from a socket whose read loop is running, after
  any events \<open>evs\<close> that leave a read on its way, a 410 closes the stream, delivers
  nothing and sends nothing, and whatever events come later, nothing more is
  delivered and no read request is sent. The count holds for the runs in which every
  read before went well: if in \<open>good\<close> every read that ends does so with status 200
  and a body that decodes, and no read fails, then after \<open>good\<close> a read is on its way,
  and as many reads were delivered, and as many read requests sent after the first,
  as reads ended. From an opened socket that is: the first \<open>n - 1\<close> reads went well,
  the \<open>n\<close>-th returns 410, \<open>n - 1\<close> reads were delivered, and there is no
  \<open>n + 1\<close>-th read request.
\<close>

theorem read_gone_stops_reading:
  assumes "reading w0" and "readInFlight (run evs w0)" and "list_all goodRead good"
  shows "closed (step (ReadLoadEnd 410 body) (run evs w0)) \<and>
         delivered (step (ReadLoadEnd 410 body) (run evs w0)) = delivered (run evs w0) \<and>
         readRequests (step (ReadLoadEnd 410 body) (run evs w0)) = readRequests (run evs w0) \<and>
         closed (run later (step (ReadLoadEnd 410 body) (run evs w0))) \<and>
         delivered (run later (step (ReadLoadEnd 410 body) (run evs w0))) =
           delivered (run evs w0) \<and>
         readRequests (run later (step (ReadLoadEnd 410 body) (run evs w0))) =
           readRequests (run evs w0) \<and>
         readInFlight (run good w0) \<and>
         length (delivered (run good w0)) = length (delivered w0) + length (filter isReadEnd good) \<and>
         length (readRequests (run good w0)) =
           length (readRequests w0) + length (filter isReadEnd good)"
proof -
  let ?v = "run evs w0"
  let ?w = "step (ReadLoadEnd 410 body) ?v"
  from run_readTokens [OF reading_readTokens [OF assms(1)], of evs] assms(2)
  have v: "reading ?v" by (rule readTokens_reading)
  from step_gone [OF v, of body] have w: "readStopped ?w" "closed ?w"
    "delivered ?w = delivered ?v" "readRequests ?w = readRequests ?v"
    by simp_all
  from run_readStopped [OF w(1), of later] w(2) have l: "closed (run later ?w)"
    "delivered (run later ?w) = delivered ?w" "readRequests (run later ?w) = readRequests ?w"
    by simp_all
  from run_reading [OF assms(1) assms(3)] have g: "readInFlight (run good w0)"
    "length (delivered (run good w0)) = length (delivered w0) + length (filter isReadEnd good)"
    "length (readRequests (run good w0)) = length (readRequests w0) + length (filter isReadEnd good)"
    by (simp_all add: reading_def)
  show ?thesis using w l g by simp
qed

theorem read_gone_stops_reading_witness:
  "reading opened \<and>
   readInFlight (run [ReadFail, Timeout 0] opened) \<and>
   list_all goodRead
     [ReadLoadEnd 200 ''QUJD'', CallAsyncWrite ''RA=='', ReadLoadEnd 200 ''RUY'', WriteFail] \<and>
   closed (step (ReadLoadEnd 410 []) (run [ReadFail, Timeout 0] opened)) \<and>
   length (readRequests (run [ReadFail, Timeout 0] opened)) = 2 \<and>
   length (readRequests (run [Timeout 0, ReadLoadEnd 200 ''QUJD'', CallAsyncWrite ''RA=='']
     (step (ReadLoadEnd 410 []) (run [ReadFail, Timeout 0] opened)))) = 2 \<and>
   length (delivered (run [ReadLoadEnd 200 ''QUJD'', CallAsyncWrite ''RA=='',
     ReadLoadEnd 200 ''RUY'', WriteFail] opened)) = 2 \<and>
   length (readRequests (run [ReadLoadEnd 200 ''QUJD'', CallAsyncWrite ''RA=='',
     ReadLoadEnd 200 ''RUY'', WriteFail] opened)) = 3"
proof -
  let ?good = "[ReadLoadEnd 200 ''QUJD'', CallAsyncWrite ''RA=='', ReadLoadEnd 200 ''RUY'', WriteFail]"
  have g: "list_all goodRead ?good" by simp
  have f: "readInFlight (run [ReadFail, Timeout 0] opened)"
    by (simp add: socket_defs)
  have n: "length (readRequests (run [ReadFail, Timeout 0] opened)) = 2"
    by (simp add: readRequests_def isRead_def socket_defs)
  show ?thesis
    using read_gone_stops_reading [OF opened_reading f g, of "[]"
        "[Timeout 0, ReadLoadEnd 200 ''QUJD'', CallAsyncWrite ''RA=='']"]
      opened_counts opened_reading g f n
    by simp
qed

text \<open>
  C7 as stated fails for a run in which an earlier read failed: the first read fails,
  its retry is the second read request, and that one returns 410. The stream closes,
  but nothing was delivered, not one read.
\<close>

theorem gone_after_failed_read_counterexample:
  "readInFlight (run [ReadFail, Timeout 0] opened) \<and>
   length (readRequests (run [ReadFail, Timeout 0] opened)) = 2 \<and>
   closed (run [ReadFail, Timeout 0, ReadLoadEnd 410 []] opened) \<and>
   length (delivered (run [ReadFail, Timeout 0, ReadLoadEnd 410 []] opened)) \<noteq> 2 - 1"
  by (simp add: readRequests_def isRead_def socket_defs)

lemma onReadReady_count:
  "readCount_' (snd (onReadReady_' 4 200 body w)) = readCount_' w + int (length body * 3 div 4)"
proof -
  have "length body mod 4 = 0 \<or> length body mod 4 = 1 \<or> length body mod 4 = 2 \<or>
        length body mod 4 = 3"
    by presburger
  then show ?thesis
    by (elim disjE)
      (simp_all add: onReadReady_'_def webSafeToBase64_map Let_def onDataAvailable_def
        clearBackoff_'_def resumeRead_'_def floor_three_quarters)
qed

text \<open>
  C10. A read that ends with status 200 adds \<open>\<lfloor>length * 3 / 4\<rfloor>\<close> to \<^verbatim>\<open>readCount_\<close>
  before the body is decoded (for every body \<open>body'\<close>). When the length of the body
  is 1 modulo 4, \<^verbatim>\<open>webSafeToBase64_\<close> then throws and closes the stream: the counter
  has advanced all the same, nothing is delivered to the consumer and no request is sent.
\<close>

theorem malformed_read_advances_count:
  assumes "length body mod 4 = 1"
  shows "onReadReady_' 4 200 body w =
           (Some (InvalidWebSafeLength (length body)),
            w\<lparr>readCount_' := readCount_' w + int (length body * 3 div 4), closed := True\<rparr>) \<and>
         delivered (snd (onReadReady_' 4 200 body w)) = delivered w \<and>
         sent (snd (onReadReady_' 4 200 body w)) = sent w \<and>
         readCount_' (snd (onReadReady_' 4 200 body' w)) = readCount_' w + int (length body' * 3 div 4)"
  using assms onReadReady_count [of body' w]
  by (simp add: onReadReady_'_def webSafeToBase64_map Let_def floor_three_quarters)

theorem malformed_read_advances_count_witness:
  "length ''QUJDR'' mod 4 = 1 \<and>
   step (ReadLoadEnd 200 ''QUJDR'') opened =
     opened\<lparr>readInFlight := False, readCount_' := 3, closed := True\<rparr>"
  using malformed_read_advances_count [of "''QUJDR''" "opened\<lparr>readInFlight := False\<rparr>" "[]"]
  by (simp add: socket_defs)

section \<open>Closing while a retry is pending\<close>

text \<open>
  C1, as amended. \<^verbatim>\<open>close()\<close> does not cancel a pending retry: the timers stay as
  they are, and a timer that fires after the stream was closed runs its function as
  on an open stream. \<^verbatim>\<open>resumeRead_\<close> sends a read request; \<^verbatim>\<open>serviceWriteQueue_\<close>
  sends the head chunk unless the write queue is empty.
\<close>

theorem retry_fires_after_close:
  assumes "k < length (timers w)"
  shows "timers (step CallClose w) = timers w \<and>
         closed (run [CallClose, Timeout k] w) \<and>
         sent (run [CallClose, Timeout k] w) =
           sent w @
           (case fst (timers w ! k) of
              ResumeRead \<Rightarrow> [ReadGET (relayServer w) (sessionID_' w) (readCount_' w)]
            | ServiceWriteQueue \<Rightarrow>
                if writeQueue_' w = [] then []
                else [WriteGET (relayServer w) (sessionID_' w) (writeCount_' w) (writeQueue_' w ! 0)])"
  using assms
  by (simp add: run_def close_def fire_def resumeRead_'_def serviceWriteQueue_'_def Let_def
      split: retry.splits)

theorem retry_fires_after_close_witness:
  "0 < length (timers (step ReadFail opened)) \<and>
   closed (run [CallClose, Timeout 0] (step ReadFail opened)) \<and>
   sent (run [CallClose, Timeout 0] (step ReadFail opened)) =
     sent (step ReadFail opened) @ [ReadGET ''http://relay:8023/'' (Some ''sid'') 0]"
proof -
  have h: "0 < length (timers (step ReadFail opened))" by (simp add: socket_defs)
  have t: "timers (step ReadFail opened) ! 0 = (ResumeRead, 1)" by (simp add: socket_defs)
  have f: "relayServer (step ReadFail opened) = ''http://relay:8023/'' \<and>
           sessionID_' (step ReadFail opened) = Some ''sid'' \<and>
           readCount_' (step ReadFail opened) = 0"
    by (simp add: socket_defs)
  show ?thesis using retry_fires_after_close [OF h] h t f by simp
qed

text \<open>
  C1 as stated fails: a read fails on an opened socket, the stream is closed while the
  retry is pending, the timer fires, and a read request is sent on the closed stream.
\<close>

theorem retry_after_close_counterexample:
  "closed (run [ReadFail, CallClose] opened) \<and>
   timers (run [ReadFail, CallClose] opened) = [(ResumeRead, 1)] \<and>
   sent (run [ReadFail, CallClose, Timeout 0] opened) =
     sent (run [ReadFail, CallClose] opened) @ [ReadGET ''http://relay:8023/'' (Some ''sid'') 0]"
  by (simp add: socket_defs)

section \<open>Writes that fail\<close>

lemma writeRequests_update [simp]:
  "writeRequests (w\<lparr>readInFlight := b\<rparr>) = writeRequests w"
  "writeRequests (w\<lparr>writeInFlight := b\<rparr>) = writeRequests w"
  "writeRequests (w\<lparr>sessionInFlight := b\<rparr>) = writeRequests w"
  "writeRequests (w\<lparr>timers := ts\<rparr>) = writeRequests w"
  "writeRequests (w\<lparr>closed := c\<rparr>) = writeRequests w"
  "writeRequests (w\<lparr>overlays := ov\<rparr>) = writeRequests w"
  "writeRequests (w\<lparr>delivered := dl\<rparr>) = writeRequests w"
  "writeRequests (w\<lparr>onComplete := oc\<rparr>) = writeRequests w"
  "writeRequests (w\<lparr>sessionID_' := si\<rparr>) = writeRequests w"
  "writeRequests (w\<lparr>backoffMS_' := n\<rparr>) = writeRequests w"
  "writeRequests (w\<lparr>writeQueue_' := q\<rparr>) = writeRequests w"
  "writeRequests (w\<lparr>writeCount_' := n\<rparr>) = writeRequests w"
  "writeRequests (w\<lparr>readCount_' := n\<rparr>) = writeRequests w"
  "writeRequests (w\<lparr>sent := sent w @ [ReadGET rs sid cnt]\<rparr>) = writeRequests w"
  "writeRequests (w\<lparr>sent := sent w @ [WriteGET rs sid cnt msg]\<rparr>) =
     writeRequests w @ [WriteGET rs sid cnt msg]"
  by (simp_all add: writeRequests_def isWrite_def)

lemma resumeRead_write [simp]:
  "writeInFlight (resumeRead_' w) = writeInFlight w"
  "writeQueue_' (resumeRead_' w) = writeQueue_' w"
  "writeCount_' (resumeRead_' w) = writeCount_' w"
  "writeRequests (resumeRead_' w) = writeRequests w"
  "timers (resumeRead_' w) = timers w"
  by (simp_all add: resumeRead_'_def)

lemma onReadReady_write [simp]:
  "writeInFlight (snd (onReadReady_' rs st body w)) = writeInFlight w"
  "writeQueue_' (snd (onReadReady_' rs st body w)) = writeQueue_' w"
  "writeCount_' (snd (onReadReady_' rs st body w)) = writeCount_' w"
  "timers (snd (onReadReady_' rs st body w)) = timers w"
  "writeRequests (snd (onReadReady_' rs st body w)) = writeRequests w"
  by (simp_all add: onReadReady_'_def onRequestError_def close_def webSafeToBase64_map Let_def
      onDataAvailable_def clearBackoff_'_def)

lemma onRequestError_write [simp]:
  "writeInFlight (onRequestError_' e w) = writeInFlight w"
  "writeQueue_' (onRequestError_' e w) = writeQueue_' w"
  "writeCount_' (onRequestError_' e w) = writeCount_' w"
  "writeRequests (onRequestError_' e w) = writeRequests w"
  by (simp_all add: onRequestError_'_def Let_def)

lemma onReady_write [simp]:
  "writeInFlight (onReady rs st body w) = writeInFlight w"
  "writeQueue_' (onReady rs st body w) = writeQueue_' w"
  "writeCount_' (onReady rs st body w) = writeCount_' w"
  "timers (onReady rs st body w) = timers w"
  "writeRequests (onReady rs st body w) = writeRequests w"
  by (simp_all add: onReady_def onError_def Let_def)

lemma asyncWrite_queued:
  assumes "writeQueue_' w \<noteq> []"
  shows "writeQueue_' (snd (asyncWrite d False w)) \<noteq> [] \<and>
         writeQueue_' (snd (asyncWrite d False w)) ! 0 = writeQueue_' w ! 0 \<and>
         writeInFlight (snd (asyncWrite d False w)) = writeInFlight w \<and>
         writeCount_' (snd (asyncWrite d False w)) = writeCount_' w \<and>
         sent (snd (asyncWrite d False w)) = sent w"
proof -
  obtain cs r where
    pc: "push_chunks (writeQueue_' w) (base64ToWebSafe_' d) = (writeQueue_' w @ cs, r)"
    using push_chunks_spec [of "writeQueue_' w" "base64ToWebSafe_' d"] by blast
  from assms have "(writeQueue_' w @ cs @ [r]) ! 0 = writeQueue_' w ! 0"
    by (simp add: nth_append)
  then show ?thesis using assms pc by (simp add: asyncWrite_def Let_def)
qed

lemma writeRetryPending_Timeout:
  assumes "\<not> writeRetryPending w" and "k < length (timers w)"
  shows "fst (timers w ! k) = ResumeRead \<and>
         \<not> list_ex (\<lambda>t. fst t = ServiceWriteQueue) (take k (timers w) @ drop (Suc k) (timers w))"
proof -
  from assms(1) have all: "\<forall>t\<in>set (timers w). fst t \<noteq> ServiceWriteQueue"
    by (simp add: writeRetryPending_def list_ex_iff)
  from assms(2) have "timers w ! k \<in> set (timers w)" by simp
  with all have "fst (timers w ! k) \<noteq> ServiceWriteQueue" by blast
  then have f: "fst (timers w ! k) = ResumeRead" by (cases "fst (timers w ! k)") auto
  have "set (take k (timers w) @ drop (Suc k) (timers w)) \<subseteq> set (timers w)"
    using set_take_subset set_drop_subset by fastforce
  with all have "\<forall>t\<in>set (take k (timers w) @ drop (Suc k) (timers w)). fst t \<noteq> ServiceWriteQueue"
    by blast
  with f show ?thesis by (simp add: list_ex_iff)
qed

lemma step_writeStalled:
  assumes "writeStalled w"
  shows "writeStalled (step e w) \<and> writeRequests (step e w) = writeRequests w \<and>
         writeQueue_' (step e w) ! 0 = writeQueue_' w ! 0 \<and>
         writeCount_' (step e w) = writeCount_' w"
proof (cases e)
  case (Timeout k)
  show ?thesis
  proof (cases "k < length (timers w)")
    case True
    from assms have "\<not> writeRetryPending w" by (simp add: writeStalled_def)
    from writeRetryPending_Timeout [OF this True] show ?thesis
      using assms Timeout True by (simp add: writeStalled_def writeRetryPending_def fire_def)
  next
    case False
    then show ?thesis using assms Timeout by simp
  qed
next
  case (CallAsyncWrite d)
  from assms have q: "writeQueue_' w \<noteq> []" by (simp add: writeStalled_def)
  from asyncWrite_queued [OF q, of d] show ?thesis
    using assms CallAsyncWrite
    by (simp add: writeStalled_def writeRetryPending_def writeRequests_def)
qed (use assms in \<open>simp_all add: writeStalled_def writeRetryPending_def close_def onError_def\<close>)

lemma run_writeStalled:
  "writeStalled w \<Longrightarrow>
     writeStalled (run evs w) \<and> writeRequests (run evs w) = writeRequests w \<and>
     writeQueue_' (run evs w) ! 0 = writeQueue_' w ! 0 \<and>
     writeCount_' (run evs w) = writeCount_' w"
proof (induction evs arbitrary: w)
  case Nil
  then show ?case by (simp add: run_def)
next
  case (Cons e evs)
  from step_writeStalled [OF Cons.prems, of e] Cons.IH [of "step e w"]
  show ?case by (simp add: run_def)
qed

text \<open>
  A write that ends with a status other than 200 and 410 leaves queue and counter as
  they are, but schedules nothing: the write path has stalled. A write that fails by
  error, abort or timeout is handled by \<^verbatim>\<open>onRequestError_\<close>: the retry is scheduled and
  sends the same head chunk with the same counter. Only status 200 pops the head
  chunk and advances the counter.
\<close>

lemma write_status_stalls:
  assumes "writeInFlight w" and "writeQueue_' w \<noteq> []" and "\<not> writeRetryPending w"
    and "status \<noteq> 200" and "status \<noteq> 410"
  shows "step (WriteLoadEnd status) w = w\<lparr>writeInFlight := False\<rparr> \<and>
         writeStalled (step (WriteLoadEnd status) w)"
  using assms
  by (simp add: onWriteDone_'_def onRequestError_def writeStalled_def writeRetryPending_def)

lemma write_fail_retries_head:
  assumes "writeInFlight w" and "writeQueue_' w \<noteq> []"
  shows "writeQueue_' (step WriteFail w) = writeQueue_' w \<and>
         writeCount_' (step WriteFail w) = writeCount_' w \<and>
         timers (step WriteFail w) = timers w @ [(ServiceWriteQueue, retryDelay WriteRequest w)] \<and>
         sent (step WriteFail w) = sent w \<and>
         sent (step (Timeout (length (timers w))) (step WriteFail w)) =
           sent w @ [WriteGET (relayServer w) (sessionID_' w) (writeCount_' w) (writeQueue_' w ! 0)]"
  using assms
  by (simp add: onWriteDone_'_def onRequestError_def onRequestError_effect retryDelay_eq Let_def
      fire_def serviceWriteQueue_'_def)

lemma write_success_pops_head:
  assumes "writeInFlight w" and "writeQueue_' w = c # q"
  shows "writeQueue_' (step (WriteLoadEnd 200) w) = q \<and>
         writeCount_' (step (WriteLoadEnd 200) w) = writeCount_' w + int (length c * 3 div 4)"
  using assms
  by (simp add: onWriteDone_'_def clearBackoff_'_def serviceWriteQueue_'_def Let_def
      floor_three_quarters)

text \<open>
  C6 at the input where the code breaks it. One chunk is queued and sent, and the write
  ends with status 500: \<^verbatim>\<open>onWriteDone_\<close> calls the undefined \<^verbatim>\<open>onRequestError\<close>, which
  throws, so no retry is scheduled; the chunk stays at the head of the queue and,
  whatever events come later, no write request is sent again.
\<close>

theorem write_status_500_never_retried:
  "writeInFlight (run [CallAsyncWrite ''QUJD''] opened) \<and>
   writeRequests (run [CallAsyncWrite ''QUJD''] opened) =
     [WriteGET ''http://relay:8023/'' (Some ''sid'') 0 ''QUJD''] \<and>
   onWriteDone_' 4 500 (run [CallAsyncWrite ''QUJD''] opened\<lparr>writeInFlight := False\<rparr>) =
     (Some TypeError, run [CallAsyncWrite ''QUJD''] opened\<lparr>writeInFlight := False\<rparr>) \<and>
   timers (run [CallAsyncWrite ''QUJD'', WriteLoadEnd 500] opened) = [] \<and>
   writeQueue_' (run [CallAsyncWrite ''QUJD'', WriteLoadEnd 500] opened) = [''QUJD''] \<and>
   writeRequests (run later (run [CallAsyncWrite ''QUJD'', WriteLoadEnd 500] opened)) =
     [WriteGET ''http://relay:8023/'' (Some ''sid'') 0 ''QUJD'']"
proof -
  let ?w = "run [CallAsyncWrite ''QUJD'', WriteLoadEnd 500] opened"
  have st: "writeStalled ?w"
    by (simp add: writeStalled_def writeRetryPending_def socket_defs push_chunks_done
        maxMessageLength_def)
  have wr: "writeRequests ?w = [WriteGET ''http://relay:8023/'' (Some ''sid'') 0 ''QUJD'']"
    by (simp add: writeRequests_def isWrite_def socket_defs push_chunks_done maxMessageLength_def)
  from run_writeStalled [OF st, of later] wr
  have "writeRequests (run later ?w) = [WriteGET ''http://relay:8023/'' (Some ''sid'') 0 ''QUJD'']"
    by simp
  then show ?thesis
    by (simp add: writeRequests_def isWrite_def socket_defs push_chunks_done maxMessageLength_def)
qed

end
